theory Spec2Isabelle
  imports Main "HOL-Library.Multiset" "HOL-Library.Sublist" "HOL-Library.Char_ord"
    "HOL-Library.List_Lexorder"
begin

section \<open>Texture sequence grouper (hooks/tk-multi-publish2/basic/publish_texture_set.py)\<close>

text \<open>
  Python strings are sequences of code points. A \<^typ>\<open>string\<close> here is a list of
  \<^typ>\<open>char\<close>, read as the code points 0 to 255; a path with a code point above 255 is
  outside the model.
\<close>

subsection \<open>The regular expression \<^verbatim>\<open>\.\d+(\.\w+)$\<close>\<close>

text \<open>
  \<^verbatim>\<open>\d\<close> on a \<^verbatim>\<open>str\<close> pattern matches the decimal digits; below code point 256 these are
  \<^verbatim>\<open>0\<close> to \<^verbatim>\<open>9\<close>.
\<close>

definition is_digit :: "char \<Rightarrow> bool" where
  "is_digit c = (c \<in> set ''0123456789'')"

text \<open>
  \<^verbatim>\<open>\w\<close> matches the alphanumeric characters and the underscore; below code point 256
  these are the ASCII letters and digits, the underscore, and the Latin-1 letters and
  numeric characters (0xAA, 0xB2, 0xB3, 0xB5, 0xB9, 0xBA, 0xBC to 0xBE, 0xC0 to 0xFF
  without 0xD7 and 0xF7).
\<close>

definition is_word :: "char \<Rightarrow> bool" where
  "is_word c =
     (c \<in> set ''abcdefghijklmnopqrstuvwxyzABCDEFGHIJKLMNOPQRSTUVWXYZ0123456789_'' \<or>
      (of_char c :: nat) \<in> {0xAA, 0xB2, 0xB3, 0xB5, 0xB9, 0xBA, 0xBC, 0xBD, 0xBE} \<or>
      (0xC0 \<le> (of_char c :: nat) \<and> (of_char c :: nat) \<noteq> 0xD7 \<and> (of_char c :: nat) \<noteq> 0xF7))"

text \<open>
  A greedy \<^verbatim>\<open>+\<close> with backtracking: the longest repetition is tried first, then one
  character less, down to one repetition; \<open>f n\<close> is the attempt to match the rest of the
  pattern after \<open>n\<close> repetitions.
\<close>

fun first_match :: "(nat \<Rightarrow> 'a option) \<Rightarrow> nat \<Rightarrow> 'a option" where
  "first_match f 0 = None"
| "first_match f (Suc n) = (case f (Suc n) of Some r \<Rightarrow> Some r | None \<Rightarrow> first_match f n)"

text \<open>
  \<^verbatim>\<open>$\<close> without the MULTILINE flag matches at the end of the string and just before a
  line feed that is the last character of the string.
\<close>

definition at_end :: "string \<Rightarrow> bool" where
  "at_end s = (s = [] \<or> s = [CHR 0x0A])"

text \<open>
  \<^verbatim>\<open>(\.\w+)$\<close> at the start of \<open>s\<close>: the text of group 1 and the number of characters
  matched.
\<close>

definition match_ext :: "string \<Rightarrow> (string \<times> nat) option" where
  "match_ext s =
     (case s of
        [] \<Rightarrow> None
      | c # t \<Rightarrow>
          if c \<noteq> CHR ''.'' then None
          else first_match
                 (\<lambda>n. if at_end (drop n t) then Some (c # take n t, Suc n) else None)
                 (length (takeWhile is_word t)))"

text \<open>
  The whole pattern \<^verbatim>\<open>\.\d+(\.\w+)$\<close> at the start of \<open>s\<close>: the text of group 1 and the
  length of the match.
\<close>

definition match_udim :: "string \<Rightarrow> (string \<times> nat) option" where
  "match_udim s =
     (case s of
        [] \<Rightarrow> None
      | c # t \<Rightarrow>
          if c \<noteq> CHR ''.'' then None
          else first_match
                 (\<lambda>k. case match_ext (drop k t) of
                        None \<Rightarrow> None
                      | Some (g1, n) \<Rightarrow> Some (g1, Suc k + n))
                 (length (takeWhile is_digit t)))"

text \<open>
  \<^verbatim>\<open>re.sub(r"\.\d+(\.\w+)$", r".<UDIM>\1", filename)\<close>: the string is scanned from the
  left; at each position where the pattern matches, the match is replaced and the scan
  goes on after it; elsewhere the character is copied. The first argument of \<open>re_sub_from\<close>
  is the number of characters still to skip because they belong to the match just
  replaced.
\<close>

fun re_sub_from :: "nat \<Rightarrow> string \<Rightarrow> string" where
  "re_sub_from _ [] = []"
| "re_sub_from (Suc n) (c # cs) = re_sub_from n cs"
| "re_sub_from 0 (c # cs) =
     (case match_udim (c # cs) of
        Some (g1, len) \<Rightarrow> ''.<UDIM>'' @ g1 @ re_sub_from (len - 1) cs
      | None \<Rightarrow> c # re_sub_from 0 cs)"

definition re_sub :: "string \<Rightarrow> string" where
  "re_sub filename = re_sub_from 0 filename"

subsection \<open>The grouper\<close>

text \<open>
  \<^verbatim>\<open>os.path.basename\<close> as \<^verbatim>\<open>posixpath\<close> defines it: what follows the last slash, the
  whole path when it has none. (On Windows \<^verbatim>\<open>os.path\<close> is \<^verbatim>\<open>ntpath\<close>, which also splits
  at a backslash and after a drive; such paths are outside the model.)
\<close>

definition basename :: "string \<Rightarrow> string" where
  "basename p = rev (takeWhile (\<lambda>c. c \<noteq> CHR ''/'') (rev p))"

text \<open>The key of a path: lines 537 and 540 of the source.\<close>

definition texture_key :: "string \<Rightarrow> string" where
  "texture_key path = re_sub (basename path)"

text \<open>
  The dictionary \<^verbatim>\<open>groups\<close> keeps its keys in insertion order, so it is an association
  list. \<^verbatim>\<open>groups.setdefault(key, []).append(path)\<close> appends to the list of an existing
  key in place and adds a new key at the end.
\<close>

fun setdefault_append :: "'k \<Rightarrow> 'v \<Rightarrow> ('k \<times> 'v list) list \<Rightarrow> ('k \<times> 'v list) list" where
  "setdefault_append k v [] = [(k, [v])]"
| "setdefault_append k v ((k', vs) # d) =
     (if k' = k then (k', vs @ [v]) # d else (k', vs) # setdefault_append k v d)"

definition group_texture_sequences :: "string list \<Rightarrow> string list list" where
  "group_texture_sequences paths =
     map snd (fold (\<lambda>path groups. setdefault_append (texture_key path) path groups) paths [])"

subsection \<open>Notions of the specification\<close>

text \<open>
  The elements of a list in the order of their first occurrence (\<^const>\<open>remdups\<close> keeps
  the last occurrence of each element).
\<close>

definition first_seen :: "'a list \<Rightarrow> 'a list" where
  "first_seen xs = rev (remdups (rev xs))"

text \<open>
  A file name ends with a dot, one or more digits, a dot and an extension of one or more
  word characters.
\<close>

definition has_udim_suffix :: "string \<Rightarrow> bool" where
  "has_udim_suffix f =
     (let r = rev f;
          ext = takeWhile is_word r;
          r1 = dropWhile is_word r;
          ds = takeWhile is_digit (tl r1);
          r2 = dropWhile is_digit (tl r1)
      in ext \<noteq> [] \<and> r1 \<noteq> [] \<and> hd r1 = CHR ''.'' \<and> ds \<noteq> [] \<and> r2 \<noteq> [] \<and> hd r2 = CHR ''.'')"

text \<open>The name without a line feed that ends it.\<close>

definition strip_nl :: "string \<Rightarrow> string" where
  "strip_nl f = (if f \<noteq> [] \<and> last f = CHR 0x0A then butlast f else f)"

section \<open>Menu generation (python/tk_substancepainter/menu_generation.py)\<close>

subsection \<open>The Qt menu tree\<close>

text \<open>
  What the \<^verbatim>\<open>triggered\<close> signal of an action is connected to: one of the two callbacks of
  the generator itself, or the callback of a registered command.
\<close>

datatype 'cb handler = JumpToSg | JumpToFs | Callback 'cb

text \<open>
  A \<^verbatim>\<open>QAction\<close> of a menu is a separator, an item (its text, what it triggers, whether it
  is enabled) or the action of a sub-menu (the title and the actions of that \<^verbatim>\<open>QMenu\<close>).
  A \<^verbatim>\<open>QMenu\<close> is its title and the list of its actions, in the order they were added.
\<close>

datatype 'cb qaction =
    Separator
  | Action string "'cb handler" bool
  | MenuAction string "'cb qaction list"

datatype 'cb qmenu = QMenu (title: string) (actions: "'cb qaction list")

text \<open>\<^verbatim>\<open>QAction.text()\<close>; a separator is created without text.\<close>

fun action_text :: "'cb qaction \<Rightarrow> string" where
  "action_text Separator = []"
| "action_text (Action t h e) = t"
| "action_text (MenuAction t as) = t"

text \<open>\<^verbatim>\<open>QAction.menu()\<close>: the sub-menu of the action, \<^verbatim>\<open>None\<close> when it has none.\<close>

fun action_menu :: "'cb qaction \<Rightarrow> 'cb qmenu option" where
  "action_menu (MenuAction t as) = Some (QMenu t as)"
| "action_menu _ = None"

text \<open>\<^verbatim>\<open>QMenu.menuAction()\<close>, the action that \<^verbatim>\<open>addMenu\<close> appends to the parent.\<close>

fun menuAction :: "'cb qmenu \<Rightarrow> 'cb qaction" where
  "menuAction (QMenu t as) = MenuAction t as"

text \<open>
  Menus are objects that the source changes in place through references. In the tree a
  sub-menu is referred to by its position among the actions of its parent; after a change
  of the sub-menu, \<open>set_menu\<close> gives the parent with the changed sub-menu at that position.
\<close>

definition set_menu :: "'cb qmenu \<Rightarrow> nat \<Rightarrow> 'cb qmenu \<Rightarrow> 'cb qmenu" where
  "set_menu parent_menu i sub_menu =
     QMenu (title parent_menu) ((actions parent_menu)[i := menuAction sub_menu])"

subsection \<open>Commands\<close>

datatype error = AttributeError | IndexError | KeyError

text \<open>
  The app object of a command: its identity, its display name, and the items of
  \<^verbatim>\<open>app.engine.apps\<close> (instance name and identity of each app of the engine).
\<close>

record app =
  app_id :: nat
  display_name :: string
  engine_apps :: "(string \<times> nat) list"

text \<open>
  The \<^verbatim>\<open>properties\<close> dictionary of a command, by the keys the generator reads; each may be
  absent. \<open>enable_callback\<close> is the value that the registered predicate returns.
\<close>

record properties =
  app :: "app option"
  cmd_type :: "string option"
  tooltip :: "string option"
  enable_callback :: "bool option"

text \<open>\<^verbatim>\<open>class AppCommand\<close>; \<^verbatim>\<open>command_dict\<close> is the pair of its callback and properties.\<close>

record 'cb app_command =
  name :: string
  properties :: properties
  callback :: 'cb
  favourite :: bool

definition AppCommand :: "string \<Rightarrow> 'cb \<times> properties \<Rightarrow> 'cb app_command" where
  "AppCommand cmd_name command_dict =
     \<lparr>name = cmd_name, properties = snd command_dict, callback = fst command_dict,
      favourite = False\<rparr>"

definition get_app_name :: "'cb app_command \<Rightarrow> string option" where
  "get_app_name cmd =
     (case app (properties cmd) of Some a \<Rightarrow> Some (display_name a) | None \<Rightarrow> None)"

fun find_app_instance :: "nat \<Rightarrow> (string \<times> nat) list \<Rightarrow> string option" where
  "find_app_instance app_instance [] = None"
| "find_app_instance app_instance ((app_instance_name, app_instance_obj) # apps) =
     (if app_instance_obj = app_instance then Some app_instance_name
      else find_app_instance app_instance apps)"

definition get_app_instance_name :: "'cb app_command \<Rightarrow> string option" where
  "get_app_instance_name cmd =
     (case app (properties cmd) of
        None \<Rightarrow> None
      | Some app_instance \<Rightarrow> find_app_instance (app_id app_instance) (engine_apps app_instance))"

definition get_type :: "'cb app_command \<Rightarrow> string" where
  "get_type cmd = (case cmd_type (properties cmd) of Some t \<Rightarrow> t | None \<Rightarrow> ''default'')"

subsection \<open>Adding to a menu\<close>

definition add_divider :: "'cb qmenu \<Rightarrow> 'cb qmenu" where
  "add_divider parent_menu = QMenu (title parent_menu) (actions parent_menu @ [Separator])"

text \<open>
  \<^verbatim>\<open>_add_sub_menu\<close> returns the new sub-menu: here its position in the parent and its
  (empty) contents, together with the parent after \<^verbatim>\<open>addMenu\<close>.
\<close>

definition add_sub_menu :: "string \<Rightarrow> 'cb qmenu \<Rightarrow> (nat \<times> 'cb qmenu) \<times> 'cb qmenu" where
  "add_sub_menu menu_name parent_menu =
     (let sub_menu = QMenu menu_name []
      in ((length (actions parent_menu), sub_menu),
          QMenu (title parent_menu) (actions parent_menu @ [menuAction sub_menu])))"

text \<open>
  \<^verbatim>\<open>_add_menu_item\<close>. A new action is enabled. \<^verbatim>\<open>QAction\<close> has the methods \<^verbatim>\<open>setToolTip\<close> and
  \<^verbatim>\<open>setStatusTip\<close>; it has no attribute \<^verbatim>\<open>setTooltip\<close>, which is what the source calls when
  the properties have a tooltip, so that call raises \<^verbatim>\<open>AttributeError\<close>. The test
  \<^verbatim>\<open>if properties:\<close> only skips a dictionary without any key, in which neither key is found
  either.
\<close>

definition add_menu_item ::
  "string \<Rightarrow> 'cb qmenu \<Rightarrow> 'cb handler \<Rightarrow> properties option \<Rightarrow> error + 'cb qmenu" where
  "add_menu_item item_name parent_menu h props =
     (case props of
        None \<Rightarrow> Inr (QMenu (title parent_menu) (actions parent_menu @ [Action item_name h True]))
      | Some p \<Rightarrow>
          (case tooltip p of
             Some tip \<Rightarrow> Inl AttributeError
           | None \<Rightarrow>
               (case enable_callback p of
                  Some enabled \<Rightarrow>
                    Inr (QMenu (title parent_menu) (actions parent_menu @ [Action item_name h enabled]))
                | None \<Rightarrow>
                    Inr (QMenu (title parent_menu) (actions parent_menu @ [Action item_name h True])))))"

text \<open>
  \<^verbatim>\<open>_find_sub_menu_item\<close>: the loop returns at the first action whose text is the label,
  with \<^verbatim>\<open>action.menu()\<close>, which is \<^verbatim>\<open>None\<close> when that action is not a sub-menu. With the
  sub-menu comes its position in the parent.
\<close>

fun find_sub_menu_item_from ::
  "nat \<Rightarrow> 'cb qaction list \<Rightarrow> string \<Rightarrow> (nat \<times> 'cb qmenu) option" where
  "find_sub_menu_item_from i [] label = None"
| "find_sub_menu_item_from i (action # rest) label =
     (if action_text action = label
      then (case action_menu action of Some m \<Rightarrow> Some (i, m) | None \<Rightarrow> None)
      else find_sub_menu_item_from (Suc i) rest label)"

definition find_sub_menu_item :: "'cb qmenu \<Rightarrow> string \<Rightarrow> (nat \<times> 'cb qmenu) option" where
  "find_sub_menu_item m label = find_sub_menu_item_from 0 (actions m) label"

text \<open>\<^verbatim>\<open>str.split(sep)\<close> with a separator of one character.\<close>

fun split :: "char \<Rightarrow> string \<Rightarrow> string list" where
  "split sep [] = [[]]"
| "split sep (c # cs) =
     (if c = sep then [] # split sep cs
      else (case split sep cs of [] \<Rightarrow> [[c]] | part # parts \<Rightarrow> (c # part) # parts))"

text \<open>
  \<^verbatim>\<open>add_command_to_menu\<close>: the loop over \<^verbatim>\<open>parts[:-1]\<close> goes down one sub-menu per label,
  into the one found or into a new one; then the item is added to the menu reached. Each
  menu on the way is put back at its position in its parent.
\<close>

fun add_command_parts ::
  "string list \<Rightarrow> string \<Rightarrow> 'cb app_command \<Rightarrow> 'cb qmenu \<Rightarrow> error + 'cb qmenu" where
  "add_command_parts [] last_part cmd parent_menu =
     add_menu_item last_part parent_menu (Callback (callback cmd)) (Some (properties cmd))"
| "add_command_parts (item_label # labels) last_part cmd parent_menu =
     (case (case find_sub_menu_item parent_menu item_label of
              Some sub_menu \<Rightarrow> (sub_menu, parent_menu)
            | None \<Rightarrow> add_sub_menu item_label parent_menu) of
        ((i, sub_menu), parent_menu') \<Rightarrow>
          (case add_command_parts labels last_part cmd sub_menu of
             Inl e \<Rightarrow> Inl e
           | Inr sub_menu' \<Rightarrow> Inr (set_menu parent_menu' i sub_menu')))"

definition add_command_to_menu :: "'cb app_command \<Rightarrow> 'cb qmenu \<Rightarrow> error + 'cb qmenu" where
  "add_command_to_menu cmd m =
     (let parts = split (CHR ''/'') (name cmd)
      in add_command_parts (butlast parts) (last parts) cmd m)"

subsection \<open>The generator\<close>

text \<open>
  The engine as the generator reads it: the items of \<^verbatim>\<open>engine.commands\<close> in the order of
  the dictionary (the names are its keys, so they are distinct), the setting
  \<^verbatim>\<open>menu_favourites\<close>, and of the context its \<^verbatim>\<open>str\<close> and its file system locations.
\<close>

record favourite_setting =
  app_instance :: string
  fav_name :: string

record 'cb engine =
  commands :: "(string \<times> ('cb \<times> properties)) list"
  menu_favourites :: "favourite_setting list"
  context_str :: string
  filesystem_locations :: "string list"

text \<open>
  The state of a \<^verbatim>\<open>MenuGenerator\<close>: the menu \<^verbatim>\<open>_shotgrid_menu\<close>, and \<^verbatim>\<open>_context_menu\<close> as the
  position of that sub-menu among the actions of \<^verbatim>\<open>_shotgrid_menu\<close>.
\<close>

record 'cb menu_generator =
  shotgrid_menu :: "'cb qmenu"
  context_menu :: nat

definition add_context_menu :: "'cb engine \<Rightarrow> 'cb qmenu \<Rightarrow> error + (nat \<times> 'cb qmenu)" where
  "add_context_menu eng root =
     (case add_sub_menu (context_str eng) root of
        ((i, ctx_menu), root') \<Rightarrow>
          (case add_menu_item ''Jump to ShotGrid'' ctx_menu JumpToSg None of
             Inl e \<Rightarrow> Inl e
           | Inr ctx_menu1 \<Rightarrow>
               (case (if filesystem_locations eng \<noteq> []
                      then add_menu_item ''Jump to File System'' ctx_menu1 JumpToFs None
                      else Inr ctx_menu1) of
                  Inl e \<Rightarrow> Inl e
                | Inr ctx_menu2 \<Rightarrow> Inr (i, set_menu root' i (add_divider ctx_menu2)))))"

text \<open>
  \<^verbatim>\<open>_add_favourite\<close>: every command that matches is added to the menu and then marked; the
  loop has no \<^verbatim>\<open>break\<close>. The result is the list of commands with the marks, and the menu.
\<close>

definition is_favourite :: "favourite_setting \<Rightarrow> 'cb app_command \<Rightarrow> bool" where
  "is_favourite fav cmd =
     (get_app_instance_name cmd = Some (app_instance fav) \<and> name cmd = fav_name fav)"

fun add_favourite ::
  "favourite_setting \<Rightarrow> 'cb app_command list \<Rightarrow> 'cb qmenu
     \<Rightarrow> error + ('cb app_command list \<times> 'cb qmenu)" where
  "add_favourite fav [] m = Inr ([], m)"
| "add_favourite fav (cmd # menu_items) m =
     (if is_favourite fav cmd
      then (case add_command_to_menu cmd m of
              Inl e \<Rightarrow> Inl e
            | Inr m' \<Rightarrow>
                (case add_favourite fav menu_items m' of
                   Inl e \<Rightarrow> Inl e
                 | Inr (menu_items', m'') \<Rightarrow> Inr (cmd\<lparr>favourite := True\<rparr> # menu_items', m'')))
      else (case add_favourite fav menu_items m of
              Inl e \<Rightarrow> Inl e
            | Inr (menu_items', m'') \<Rightarrow> Inr (cmd # menu_items', m'')))"

text \<open>The loop over the setting in \<^verbatim>\<open>setup_menu_items\<close>.\<close>

fun add_favourites ::
  "favourite_setting list \<Rightarrow> 'cb app_command list \<Rightarrow> 'cb qmenu
     \<Rightarrow> error + ('cb app_command list \<times> 'cb qmenu)" where
  "add_favourites [] menu_items m = Inr (menu_items, m)"
| "add_favourites (fav # favs) menu_items m =
     (case add_favourite fav menu_items m of
        Inl e \<Rightarrow> Inl e
      | Inr (menu_items', m') \<Rightarrow> add_favourites favs menu_items' m')"

text \<open>
  \<^verbatim>\<open>_add_commands_by_app_to_menu\<close>. The inner loop adds the commands of one app to its new
  sub-menu.
\<close>

fun add_commands_to_menu :: "'cb app_command list \<Rightarrow> 'cb qmenu \<Rightarrow> error + 'cb qmenu" where
  "add_commands_to_menu [] app_menu = Inr app_menu"
| "add_commands_to_menu (cmd # cmds) app_menu =
     (case add_command_to_menu cmd app_menu of
        Inl e \<Rightarrow> Inl e
      | Inr app_menu' \<Rightarrow> add_commands_to_menu cmds app_menu')"

definition add_app_to_menu ::
  "(string \<times> 'cb app_command list) list \<Rightarrow> string \<Rightarrow> 'cb qmenu \<Rightarrow> error + 'cb qmenu" where
  "add_app_to_menu commands_by_app app_name root =
     (case map_of commands_by_app app_name of
        None \<Rightarrow> Inl KeyError
      | Some cmds \<Rightarrow>
          if length cmds > 1
          then (case add_sub_menu app_name root of
                  ((i, app_menu), root') \<Rightarrow>
                    (case add_commands_to_menu (sort_key name cmds) app_menu of
                       Inl e \<Rightarrow> Inl e
                     | Inr app_menu' \<Rightarrow> Inr (set_menu root' i app_menu')))
          else (case cmds of
                  [] \<Rightarrow> Inl IndexError
                | cmd_obj # _ \<Rightarrow>
                    if \<not> favourite cmd_obj then add_command_to_menu cmd_obj root
                    else Inr root))"

fun add_apps_to_menu ::
  "(string \<times> 'cb app_command list) list \<Rightarrow> string list \<Rightarrow> 'cb qmenu \<Rightarrow> error + 'cb qmenu" where
  "add_apps_to_menu commands_by_app [] root = Inr root"
| "add_apps_to_menu commands_by_app (app_name # app_names) root =
     (case add_app_to_menu commands_by_app app_name root of
        Inl e \<Rightarrow> Inl e
      | Inr root' \<Rightarrow> add_apps_to_menu commands_by_app app_names root')"

definition add_commands_by_app_to_menu ::
  "(string \<times> 'cb app_command list) list \<Rightarrow> 'cb qmenu \<Rightarrow> error + 'cb qmenu" where
  "add_commands_by_app_to_menu commands_by_app root =
     add_apps_to_menu commands_by_app (sort (map fst commands_by_app)) root"

text \<open>
  \<^verbatim>\<open>_add_app_menus\<close>. A command of type \<^verbatim>\<open>context_menu\<close> is added to the context menu, the
  sub-menu of \<^verbatim>\<open>_shotgrid_menu\<close> that \<^verbatim>\<open>_context_menu\<close> refers to; if that reference were not
  a menu, the call on \<^verbatim>\<open>None\<close> would raise \<^verbatim>\<open>AttributeError\<close>. The other commands go to the
  dictionary \<^verbatim>\<open>commands_by_app\<close>, which keeps insertion order.
\<close>

definition add_command_to_context_menu ::
  "'cb app_command \<Rightarrow> 'cb menu_generator \<Rightarrow> error + 'cb menu_generator" where
  "add_command_to_context_menu cmd gen =
     (if context_menu gen < length (actions (shotgrid_menu gen))
      then (case action_menu (actions (shotgrid_menu gen) ! context_menu gen) of
              None \<Rightarrow> Inl AttributeError
            | Some ctx_menu \<Rightarrow>
                (case add_command_to_menu cmd ctx_menu of
                   Inl e \<Rightarrow> Inl e
                 | Inr ctx_menu' \<Rightarrow>
                     Inr (gen\<lparr>shotgrid_menu :=
                                set_menu (shotgrid_menu gen) (context_menu gen) ctx_menu'\<rparr>)))
      else Inl AttributeError)"

definition app_key :: "'cb app_command \<Rightarrow> string" where
  "app_key cmd = (case get_app_name cmd of None \<Rightarrow> ''Other Items'' | Some app_name \<Rightarrow> app_name)"

fun collect_commands_by_app ::
  "'cb app_command list \<Rightarrow> 'cb menu_generator \<Rightarrow> (string \<times> 'cb app_command list) list
     \<Rightarrow> error + ('cb menu_generator \<times> (string \<times> 'cb app_command list) list)" where
  "collect_commands_by_app [] gen commands_by_app = Inr (gen, commands_by_app)"
| "collect_commands_by_app (cmd # menu_items) gen commands_by_app =
     (if get_type cmd = ''context_menu''
      then (case add_command_to_context_menu cmd gen of
              Inl e \<Rightarrow> Inl e
            | Inr gen' \<Rightarrow> collect_commands_by_app menu_items gen' commands_by_app)
      else collect_commands_by_app menu_items gen
             (setdefault_append (app_key cmd) cmd commands_by_app))"

definition add_app_menus ::
  "'cb app_command list \<Rightarrow> 'cb menu_generator \<Rightarrow> error + 'cb menu_generator" where
  "add_app_menus menu_items gen =
     (case collect_commands_by_app menu_items gen [] of
        Inl e \<Rightarrow> Inl e
      | Inr (gen', commands_by_app) \<Rightarrow>
          (case add_commands_by_app_to_menu commands_by_app (shotgrid_menu gen') of
             Inl e \<Rightarrow> Inl e
           | Inr root \<Rightarrow> Inr (gen'\<lparr>shotgrid_menu := root\<rparr>)))"

text \<open>
  \<^verbatim>\<open>setup_menu_items\<close>. Lines 81 to 86, the list of commands in name order, are
  \<open>build_menu_items\<close>; \<^verbatim>\<open>list.sort\<close> is stable and compares the names as strings, code
  point by code point.
\<close>

definition build_menu_items :: "(string \<times> ('cb \<times> properties)) list \<Rightarrow> 'cb app_command list" where
  "build_menu_items cmds =
     sort_key name (map (\<lambda>(cmd_name, cmd_details). AppCommand cmd_name cmd_details) cmds)"

definition setup_menu_items :: "'cb engine \<Rightarrow> 'cb menu_generator \<Rightarrow> error + 'cb menu_generator" where
  "setup_menu_items eng gen =
     (case add_context_menu eng (QMenu (title (shotgrid_menu gen)) []) of
        Inl e \<Rightarrow> Inl e
      | Inr (ctx, root1) \<Rightarrow>
          (case add_favourites (menu_favourites eng) (build_menu_items (commands eng))
                  (add_divider root1) of
             Inl e \<Rightarrow> Inl e
           | Inr (menu_items, root2) \<Rightarrow>
               add_app_menus menu_items
                 \<lparr>shotgrid_menu = add_divider root2, context_menu = ctx\<rparr>))"

subsection \<open>Notions for the properties of the menu\<close>

text \<open>What the items of an action, and of the sub-menus below it, trigger.\<close>

fun handlers :: "'cb qaction \<Rightarrow> 'cb handler multiset" where
  "handlers Separator = {#}"
| "handlers (Action t h e) = {#h#}"
| "handlers (MenuAction t as) = sum_list (map handlers as)"

text \<open>What the items of a menu, at any depth, trigger.\<close>

definition menu_handlers :: "'cb qmenu \<Rightarrow> 'cb handler multiset" where
  "menu_handlers m = sum_list (map handlers (actions m))"

text \<open>The callbacks of a list of commands, as what items made for them trigger.\<close>

definition command_handlers :: "'cb app_command list \<Rightarrow> 'cb handler multiset" where
  "command_handlers cmds = mset (map (\<lambda>cmd. Callback (callback cmd)) cmds)"

text \<open>
  An action keeps its text, keeps its sub-menu if it has one, and loses no item below it;
  a menu keeps its title and its actions in their places, each of which grows.
\<close>

definition grows :: "'cb qaction \<Rightarrow> 'cb qaction \<Rightarrow> bool" where
  "grows a a' \<longleftrightarrow>
     action_text a' = action_text a \<and> handlers a \<subseteq># handlers a' \<and>
     (action_menu a \<noteq> None \<longrightarrow> action_menu a' \<noteq> None)"

definition menu_grows :: "'cb qmenu \<Rightarrow> 'cb qmenu \<Rightarrow> bool" where
  "menu_grows m m' \<longleftrightarrow>
     title m' = title m \<and> length (actions m) \<le> length (actions m') \<and>
     (\<forall>i<length (actions m). grows (actions m ! i) (actions m' ! i))"



text \<open>
  Below the action, sub-menus titled with the labels, one inside the other, lead to an
  item with the given text and handler.
\<close>

fun item_below :: "string list \<Rightarrow> string \<Rightarrow> 'cb handler \<Rightarrow> 'cb qaction \<Rightarrow> bool" where
  "item_below [] leaf h a = (case a of Action t h' e \<Rightarrow> t = leaf \<and> h' = h | _ \<Rightarrow> False)"
| "item_below (label # labels) leaf h a =
     (case a of MenuAction t as \<Rightarrow> t = label \<and> (\<exists>b\<in>set as. item_below labels leaf h b)
      | _ \<Rightarrow> False)"

section \<open>Properties of the texture sequence grouper\<close>

subsection \<open>The pattern matches at most once, with the longest repetitions\<close>

lemma first_match_last:
  "(\<And>k. 0 < k \<Longrightarrow> k < n \<Longrightarrow> f k = None) \<Longrightarrow> first_match f n = (if n = 0 then None else f n)"
proof (induction n)
  case 0
  show ?case by simp
next
  case (Suc n)
  have "first_match f n = None"
  proof (cases n)
    case 0
    then show ?thesis by simp
  next
    case (Suc m)
    have "first_match f n = (if n = 0 then None else f n)"
      by (rule Suc.IH) (simp add: Suc.prems)
    then show ?thesis using Suc Suc.prems[of n] by simp
  qed
  then show ?case by (simp split: option.splits)
qed

lemma not_word_dot [simp]: "\<not> is_word (CHR ''.'')"
  by (simp add: is_word_def)

lemma not_word_nl [simp]: "\<not> is_word (CHR 0x0A)"
  by (simp add: is_word_def)

lemma not_digit_dot [simp]: "\<not> is_digit (CHR ''.'')"
  by (simp add: is_digit_def)

lemma not_digit_gt [simp]: "\<not> is_digit (CHR ''>'')"
  by (simp add: is_digit_def)

lemma takeWhile_nth_holds: "n < length (takeWhile P xs) \<Longrightarrow> P (xs ! n)"
  by (metis nth_mem set_takeWhileD takeWhile_nth)

lemma match_ext_eq:
  "match_ext s =
     (case s of [] \<Rightarrow> None
      | c # t \<Rightarrow> if c = CHR ''.'' \<and> takeWhile is_word t \<noteq> [] \<and> at_end (dropWhile is_word t)
                 then Some (c # takeWhile is_word t, Suc (length (takeWhile is_word t))) else None)"
proof (cases s)
  case Nil
  then show ?thesis by (simp add: match_ext_def)
next
  case (Cons c t)
  let ?n = "length (takeWhile is_word t)"
  let ?f = "\<lambda>n. if at_end (drop n t) then Some (c # take n t, Suc n) else None"
  have none: "?f k = None" if "k < ?n" for k
  proof -
    have w: "is_word (t ! k)" using that by (rule takeWhile_nth_holds)
    have "k < length t" using that length_takeWhile_le[of is_word t] by simp
    then have "drop k t = t ! k # drop (Suc k) t" by (simp add: Cons_nth_drop_Suc)
    with w have "\<not> at_end (drop k t)" by (auto simp: at_end_def)
    then show ?thesis by simp
  qed
  have fm: "first_match ?f ?n = (if ?n = 0 then None else ?f ?n)"
    by (rule first_match_last) (rule none)
  have dr: "drop ?n t = dropWhile is_word t" by (simp add: dropWhile_eq_drop)
  have tk: "take ?n t = takeWhile is_word t" by (rule takeWhile_eq_take[symmetric])
  show ?thesis
  proof (cases "c = CHR ''.''")
    case False
    then show ?thesis using Cons by (simp add: match_ext_def)
  next
    case True
    have nn: "\<not> c \<noteq> CHR ''.''" using True by simp
    have "match_ext s = first_match ?f ?n"
      unfolding Cons match_ext_def list.case by (rule if_not_P[OF nn])
    also have "\<dots> = (if ?n = 0 then None else ?f ?n)" by (rule fm)
    also have "\<dots> = (if takeWhile is_word t \<noteq> [] \<and> at_end (dropWhile is_word t)
         then Some (c # takeWhile is_word t, Suc ?n) else None)"
      unfolding dr tk by simp
    finally show ?thesis using Cons True by simp
  qed
qed

lemma match_ext_digit: "is_digit c \<Longrightarrow> match_ext (c # t) = None"
  by (auto simp: match_ext_eq)

lemma match_udim_eq:
  "match_udim s =
     (case s of [] \<Rightarrow> None
      | c # t \<Rightarrow> if c = CHR ''.'' \<and> takeWhile is_digit t \<noteq> []
                 then (case match_ext (dropWhile is_digit t) of None \<Rightarrow> None
                       | Some (g1, n) \<Rightarrow> Some (g1, Suc (length (takeWhile is_digit t)) + n))
                 else None)"
proof (cases s)
  case Nil
  then show ?thesis by (simp add: match_udim_def)
next
  case (Cons c t)
  let ?n = "length (takeWhile is_digit t)"
  let ?f = "\<lambda>k. case match_ext (drop k t) of None \<Rightarrow> None | Some (g1, n) \<Rightarrow> Some (g1, Suc k + n)"
  have none: "?f k = None" if "k < ?n" for k
  proof -
    have w: "is_digit (t ! k)" using that by (rule takeWhile_nth_holds)
    have "k < length t" using that length_takeWhile_le[of is_digit t] by simp
    then have "drop k t = t ! k # drop (Suc k) t" by (simp add: Cons_nth_drop_Suc)
    with w show ?thesis by (simp add: match_ext_digit)
  qed
  have fm: "first_match ?f ?n = (if ?n = 0 then None else ?f ?n)"
    by (rule first_match_last) (rule none)
  have dr: "drop ?n t = dropWhile is_digit t" by (simp add: dropWhile_eq_drop)
  show ?thesis using Cons fm by (simp add: match_udim_def dr)
qed


lemma at_end_cases: "at_end nl \<longleftrightarrow> nl = [] \<or> nl = [CHR 0x0A]"
  by (simp add: at_end_def)

lemma takeWhile_all_stop:
  "\<forall>x\<in>set xs. P x \<Longrightarrow> (ys = [] \<or> \<not> P (hd ys)) \<Longrightarrow> takeWhile P (xs @ ys) = xs"
  by (cases ys) (simp_all add: takeWhile_append2)

lemma dropWhile_all_stop:
  "\<forall>x\<in>set xs. P x \<Longrightarrow> (ys = [] \<or> \<not> P (hd ys)) \<Longrightarrow> dropWhile P (xs @ ys) = ys"
  by (cases ys) (simp_all add: dropWhile_append2)

lemma match_ext_hit:
  assumes "ext \<noteq> []" "\<forall>c\<in>set ext. is_word c" "at_end nl"
  shows "match_ext (CHR ''.'' # ext @ nl) = Some (CHR ''.'' # ext, Suc (length ext))"
proof -
  have st: "nl = [] \<or> \<not> is_word (hd nl)" using assms(3) by (auto simp: at_end_def)
  have t: "takeWhile is_word (ext @ nl) = ext" using assms(2) st by (rule takeWhile_all_stop)
  have d: "dropWhile is_word (ext @ nl) = nl" using assms(2) st by (rule dropWhile_all_stop)
  show ?thesis using assms(1,3) by (simp add: match_ext_eq t d)
qed

lemma match_udim_hit:
  assumes "ds \<noteq> []" "\<forall>c\<in>set ds. is_digit c" "ext \<noteq> []" "\<forall>c\<in>set ext. is_word c" "at_end nl"
  shows "match_udim (CHR ''.'' # ds @ CHR ''.'' # ext @ nl)
           = Some (CHR ''.'' # ext, Suc (length ds) + Suc (length ext))"
proof -
  have st: "CHR ''.'' # ext @ nl = [] \<or> \<not> is_digit (hd (CHR ''.'' # ext @ nl))" by simp
  have t: "takeWhile is_digit (ds @ CHR ''.'' # ext @ nl) = ds"
    using assms(2) st by (rule takeWhile_all_stop)
  have d: "dropWhile is_digit (ds @ CHR ''.'' # ext @ nl) = CHR ''.'' # ext @ nl"
    using assms(2) st by (rule dropWhile_all_stop)
  show ?thesis using assms(1) match_ext_hit[OF assms(3,4,5)] by (simp add: match_udim_eq t d)
qed

lemma match_udim_shape:
  assumes "match_udim s = Some (g, len)"
  shows "\<exists>ds ext nl. s = CHR ''.'' # ds @ CHR ''.'' # ext @ nl \<and> ds \<noteq> [] \<and> (\<forall>c\<in>set ds. is_digit c)
           \<and> ext \<noteq> [] \<and> (\<forall>c\<in>set ext. is_word c) \<and> at_end nl"
proof -
  from assms obtain c t where s: "s = c # t" by (cases s) (auto simp: match_udim_eq)
  from assms s have c: "c = CHR ''.''" and ds: "takeWhile is_digit t \<noteq> []"
    and me: "match_ext (dropWhile is_digit t) \<noteq> None"
    by (auto simp: match_udim_eq split: if_splits option.splits)
  from me obtain c' t' where d: "dropWhile is_digit t = c' # t'"
    by (cases "dropWhile is_digit t") (auto simp: match_ext_eq)
  from me d have c': "c' = CHR ''.''" and ext: "takeWhile is_word t' \<noteq> []"
    and nl: "at_end (dropWhile is_word t')"
    by (auto simp: match_ext_eq split: if_splits)
  have "t = takeWhile is_digit t @ dropWhile is_digit t" by simp
  also have "\<dots> = takeWhile is_digit t @ CHR ''.'' # takeWhile is_word t' @ dropWhile is_word t'"
    using d c' by simp
  finally have "s = CHR ''.'' # takeWhile is_digit t @ CHR ''.'' # takeWhile is_word t' @ dropWhile is_word t'"
    using s c by simp
  moreover have "\<forall>c\<in>set (takeWhile is_digit t). is_digit c" by (auto dest: set_takeWhileD)
  moreover have "\<forall>c\<in>set (takeWhile is_word t'). is_word c" by (auto dest: set_takeWhileD)
  ultimately show ?thesis using ds ext nl by blast
qed

lemma split_unique:
  assumes "\<forall>x\<in>set xs. P x" "\<forall>x\<in>set ys. P x" "\<not> P a" "\<not> P b" "xs @ a # A = ys @ b # B"
  shows "xs = ys \<and> A = B"
proof -
  have "takeWhile P (xs @ a # A) = xs" using assms(1,3) by (simp add: takeWhile_all_stop)
  moreover have "takeWhile P (ys @ b # B) = ys" using assms(2,4) by (simp add: takeWhile_all_stop)
  ultimately have "xs = ys" using assms(5) by simp
  then show ?thesis using assms(5) by simp
qed

lemma udim_suffix_unique:
  assumes a: "ds \<noteq> []" "\<forall>c\<in>set ds. is_digit c" "ext \<noteq> []" "\<forall>c\<in>set ext. is_word c" "at_end nl"
    and b: "\<forall>c\<in>set ds'. is_digit c" "ext' \<noteq> []" "\<forall>c\<in>set ext'. is_word c" "at_end nl'"
    and eq: "pre @ CHR ''.'' # ds @ CHR ''.'' # ext @ nl = pre' @ CHR ''.'' # ds' @ CHR ''.'' # ext' @ nl'"
  shows "pre = pre' \<and> ds = ds' \<and> ext = ext' \<and> nl = nl'"
proof -
  have l1: "is_word (last ext)" using a(3,4) by simp
  have l2: "is_word (last ext')" using b(2,3) by simp
  have nl: "nl = nl'"
  proof (rule ccontr)
    assume ne: "nl \<noteq> nl'"
    from arg_cong[OF eq, of last] have "last (ext @ nl) = last (ext' @ nl')"
      using a(3) b(2) by simp
    with ne a(5) b(4) have "last ext = CHR 0x0A \<or> last ext' = CHR 0x0A"
      by (auto simp: at_end_def)
    with l1 l2 show False by (metis not_word_nl)
  qed
  from eq nl have eq1: "pre @ CHR ''.'' # ds @ CHR ''.'' # ext = pre' @ CHR ''.'' # ds' @ CHR ''.'' # ext'"
  proof -
    from eq have "(pre @ CHR ''.'' # ds @ CHR ''.'' # ext) @ nl = (pre' @ CHR ''.'' # ds' @ CHR ''.'' # ext') @ nl'"
      by simp
    then show ?thesis unfolding nl by (rule append_same_eq[THEN iffD1])
  qed
  from arg_cong[OF eq1, of rev]
  have r: "rev ext @ CHR ''.'' # (rev ds @ CHR ''.'' # rev pre) = rev ext' @ CHR ''.'' # (rev ds' @ CHR ''.'' # rev pre')"
    by simp
  have e: "rev ext = rev ext' \<and> rev ds @ CHR ''.'' # rev pre = rev ds' @ CHR ''.'' # rev pre'"
    by (rule split_unique[OF _ _ _ _ r]) (use a(4) b(3) in auto)
  have d: "rev ds = rev ds' \<and> rev pre = rev pre'"
    by (rule split_unique[OF _ _ _ _ conjunct2[OF e]]) (use a(2) b(1) in auto)
  from e d nl show ?thesis by simp
qed

lemma match_udim_miss:
  assumes "ds \<noteq> []" "\<forall>c\<in>set ds. is_digit c" "ext \<noteq> []" "\<forall>c\<in>set ext. is_word c" "at_end nl"
  shows "match_udim (c # pre @ CHR ''.'' # ds @ CHR ''.'' # ext @ nl) = None"
proof (rule ccontr)
  assume "match_udim (c # pre @ CHR ''.'' # ds @ CHR ''.'' # ext @ nl) \<noteq> None"
  then obtain g len where "match_udim (c # pre @ CHR ''.'' # ds @ CHR ''.'' # ext @ nl) = Some (g, len)"
    by auto
  from match_udim_shape[OF this] obtain ds' ext' nl' where
    s: "c # pre @ CHR ''.'' # ds @ CHR ''.'' # ext @ nl = CHR ''.'' # ds' @ CHR ''.'' # ext' @ nl'"
    and b: "\<forall>c\<in>set ds'. is_digit c" "ext' \<noteq> []" "\<forall>c\<in>set ext'. is_word c" "at_end nl'"
    by blast
  from s have "(c # pre) @ CHR ''.'' # ds @ CHR ''.'' # ext @ nl = [] @ CHR ''.'' # ds' @ CHR ''.'' # ext' @ nl'"
    by simp
  from udim_suffix_unique[OF assms b this] show False by simp
qed


lemma re_sub_from_skip: "length s \<le> n \<Longrightarrow> re_sub_from n s = []"
  by (induction n s rule: re_sub_from.induct) simp_all

lemma re_sub_from_skip_append: "re_sub_from (length xs) (xs @ ys) = re_sub_from 0 ys"
  by (induction xs) simp_all

lemma match_udim_short: "length s \<le> 1 \<Longrightarrow> match_udim s = None"
  by (cases s) (auto simp: match_udim_eq)

lemma re_sub_from_at_end: "at_end nl \<Longrightarrow> re_sub_from 0 nl = nl"
  by (auto simp: at_end_def match_udim_short)

lemma re_sub_hit:
  assumes "ds \<noteq> []" "\<forall>c\<in>set ds. is_digit c" "ext \<noteq> []" "\<forall>c\<in>set ext. is_word c" "at_end nl"
  shows "re_sub (pre @ CHR ''.'' # ds @ CHR ''.'' # ext @ nl) = pre @ ''.<UDIM>.'' @ ext @ nl"
proof (induction pre)
  case Nil
  have "re_sub_from (Suc (length ds) + Suc (length ext) - 1) (ds @ CHR ''.'' # ext @ nl)
          = re_sub_from (length (ds @ CHR ''.'' # ext)) ((ds @ CHR ''.'' # ext) @ nl)"
    by simp
  also have "\<dots> = re_sub_from 0 nl" by (rule re_sub_from_skip_append)
  also have "\<dots> = nl" using assms(5) by (rule re_sub_from_at_end)
  finally show ?case
    by (simp add: re_sub_def match_udim_hit[OF assms])
next
  case (Cons c pre)
  then show ?case
    by (simp add: re_sub_def match_udim_miss[OF assms])
qed

lemma re_sub_from_miss:
  "(\<And>i. match_udim (drop i s) = None) \<Longrightarrow> re_sub_from 0 s = s"
proof (induction s)
  case Nil
  show ?case by simp
next
  case (Cons c s)
  have "match_udim (c # s) = None" using Cons.prems[of 0] by simp
  moreover have "re_sub_from 0 s = s"
  proof (rule Cons.IH)
    fix i show "match_udim (drop i s) = None" using Cons.prems[of "Suc i"] by simp
  qed
  ultimately show ?case by simp
qed

lemma has_udim_suffix_intro:
  assumes "ds \<noteq> []" "\<forall>c\<in>set ds. is_digit c" "ext \<noteq> []" "\<forall>c\<in>set ext. is_word c"
  shows "has_udim_suffix (pre @ CHR ''.'' # ds @ CHR ''.'' # ext)"
proof -
  have r: "rev (pre @ CHR ''.'' # ds @ CHR ''.'' # ext) = rev ext @ CHR ''.'' # rev ds @ CHR ''.'' # rev pre"
    by simp
  have t1: "takeWhile is_word (rev ext @ CHR ''.'' # rev ds @ CHR ''.'' # rev pre) = rev ext"
    using assms(4) by (simp add: takeWhile_all_stop)
  have d1: "dropWhile is_word (rev ext @ CHR ''.'' # rev ds @ CHR ''.'' # rev pre) = CHR ''.'' # rev ds @ CHR ''.'' # rev pre"
    using assms(4) by (simp add: dropWhile_all_stop)
  have t2: "takeWhile is_digit (rev ds @ CHR ''.'' # rev pre) = rev ds"
    using assms(2) by (simp add: takeWhile_all_stop)
  have d2: "dropWhile is_digit (rev ds @ CHR ''.'' # rev pre) = CHR ''.'' # rev pre"
    using assms(2) by (simp add: dropWhile_all_stop)
  show ?thesis unfolding has_udim_suffix_def r Let_def t1 d1 list.sel t2 d2
    using assms(1,3) by simp
qed

lemma has_udim_suffix_elim:
  assumes "has_udim_suffix f"
  shows "\<exists>pre ds ext. f = pre @ CHR ''.'' # ds @ CHR ''.'' # ext \<and> ds \<noteq> [] \<and> (\<forall>c\<in>set ds. is_digit c)
           \<and> ext \<noteq> [] \<and> (\<forall>c\<in>set ext. is_word c)"
proof -
  let ?r = "rev f"
  let ?ext = "takeWhile is_word ?r" and ?r1 = "dropWhile is_word ?r"
  let ?ds = "takeWhile is_digit (tl ?r1)" and ?r2 = "dropWhile is_digit (tl ?r1)"
  from assms have h: "?ext \<noteq> []" "?r1 \<noteq> []" "hd ?r1 = CHR ''.''" "?ds \<noteq> []" "?r2 \<noteq> []" "hd ?r2 = CHR ''.''"
    by (simp_all add: has_udim_suffix_def Let_def)
  have r1: "?r1 = CHR ''.'' # tl ?r1" using h(2,3) by (metis list.collapse)
  have r2: "?r2 = CHR ''.'' # tl ?r2" using h(5,6) by (metis list.collapse)
  have "?r = ?ext @ ?r1" by simp
  also have "\<dots> = ?ext @ CHR ''.'' # tl ?r1" using r1 by simp
  also have "tl ?r1 = ?ds @ ?r2" by simp
  also have "?r2 = CHR ''.'' # tl ?r2" by (rule r2)
  finally have "rev ?r = rev (?ext @ CHR ''.'' # ?ds @ CHR ''.'' # tl ?r2)" by simp
  then have "f = rev (tl ?r2) @ CHR ''.'' # rev ?ds @ CHR ''.'' # rev ?ext" by simp
  moreover have "\<forall>c\<in>set (rev ?ds). is_digit c" by (auto dest: set_takeWhileD)
  moreover have "\<forall>c\<in>set (rev ?ext). is_word c" by (auto dest: set_takeWhileD)
  ultimately show ?thesis using h(1,4) by (metis rev_is_Nil_conv)
qed

lemma strip_nl_append:
  assumes "ext \<noteq> []" "\<forall>c\<in>set ext. is_word c" "at_end nl"
  shows "strip_nl (xs @ ext @ nl) = xs @ ext"
proof -
  have "is_word (last ext)" using assms(1,2) by simp
  then have "last ext \<noteq> CHR 0x0A" by (metis not_word_nl)
  then show ?thesis using assms(1,3)
    by (auto simp: strip_nl_def at_end_def butlast_append)
qed

lemma match_somewhere_suffix:
  assumes "match_udim (drop i s) \<noteq> None"
  shows "has_udim_suffix (strip_nl s)"
proof -
  from assms obtain g len where "match_udim (drop i s) = Some (g, len)" by auto
  from match_udim_shape[OF this] obtain ds ext nl where
    d: "drop i s = CHR ''.'' # ds @ CHR ''.'' # ext @ nl" and
    c: "ds \<noteq> []" "\<forall>c\<in>set ds. is_digit c" "ext \<noteq> []" "\<forall>c\<in>set ext. is_word c" "at_end nl"
    by blast
  have "s = take i s @ drop i s" by simp
  also have "\<dots> = (take i s @ CHR ''.'' # ds @ [CHR ''.'']) @ ext @ nl" using d by simp
  finally have "strip_nl s = (take i s @ CHR ''.'' # ds @ [CHR ''.'']) @ ext"
    using strip_nl_append[OF c(3,4,5)] by metis
  then show ?thesis using has_udim_suffix_intro[OF c(1,2,3,4), of "take i s"] by simp
qed

lemma re_sub_miss: "\<not> has_udim_suffix (strip_nl f) \<Longrightarrow> re_sub f = f"
  unfolding re_sub_def by (rule re_sub_from_miss) (use match_somewhere_suffix in blast)


lemma strip_nl_decomp: "\<exists>nl. at_end nl \<and> f = strip_nl f @ nl"
proof (cases "f \<noteq> [] \<and> last f = CHR 0x0A")
  case True
  then have "f = butlast f @ [CHR 0x0A]" by (metis append_butlast_last_id)
  then have "at_end [CHR 0x0A] \<and> f = strip_nl f @ [CHR 0x0A]"
    using True by (simp add: strip_nl_def at_end_def)
  then show ?thesis by blast
next
  case False
  then have "at_end [] \<and> f = strip_nl f @ []" by (auto simp: strip_nl_def at_end_def)
  then show ?thesis by blast
qed

lemma no_suffix_placeholder:
  assumes "\<forall>c\<in>set ext. is_word c"
  shows "\<not> has_udim_suffix (pre @ ''.<UDIM>.'' @ ext)"
proof -
  have r: "rev (pre @ ''.<UDIM>.'' @ ext) = rev ext @ CHR ''.'' # (''>MIDU<.'' @ rev pre)"
    by simp
  have d1: "dropWhile is_word (rev ext @ CHR ''.'' # (''>MIDU<.'' @ rev pre)) = CHR ''.'' # (''>MIDU<.'' @ rev pre)"
    using assms by (simp add: dropWhile_all_stop)
  show ?thesis unfolding has_udim_suffix_def r Let_def d1 list.sel by simp
qed

lemma re_sub_shape:
  "re_sub f = f \<or> (\<exists>pre ds ext nl. f = pre @ CHR ''.'' # ds @ CHR ''.'' # ext @ nl \<and>
      (\<forall>c\<in>set ext. is_word c) \<and> ext \<noteq> [] \<and> at_end nl \<and> re_sub f = pre @ ''.<UDIM>.'' @ ext @ nl)"
proof (cases "has_udim_suffix (strip_nl f)")
  case False
  then show ?thesis by (simp add: re_sub_miss)
next
  case True
  from has_udim_suffix_elim[OF True] obtain pre ds ext where
    f: "strip_nl f = pre @ CHR ''.'' # ds @ CHR ''.'' # ext" and
    c: "ds \<noteq> []" "\<forall>c\<in>set ds. is_digit c" "ext \<noteq> []" "\<forall>c\<in>set ext. is_word c"
    by blast
  from strip_nl_decomp[of f] obtain nl where nl: "at_end nl" "f = strip_nl f @ nl" by blast
  from nl(2) f have f': "f = pre @ CHR ''.'' # ds @ CHR ''.'' # ext @ nl" by simp
  have "re_sub f = pre @ ''.<UDIM>.'' @ ext @ nl"
    unfolding f' by (rule re_sub_hit[OF c nl(1)])
  with f' c nl(1) show ?thesis by blast
qed

lemma re_sub_idem: "re_sub (re_sub f) = re_sub f"
proof -
  from re_sub_shape[of f] show ?thesis
  proof
    assume "re_sub f = f" then show ?thesis by simp
  next
    assume "\<exists>pre ds ext nl. f = pre @ CHR ''.'' # ds @ CHR ''.'' # ext @ nl \<and>
      (\<forall>c\<in>set ext. is_word c) \<and> ext \<noteq> [] \<and> at_end nl \<and> re_sub f = pre @ ''.<UDIM>.'' @ ext @ nl"
    then obtain pre ext nl where c: "\<forall>c\<in>set ext. is_word c" "ext \<noteq> []" "at_end nl"
      and r: "re_sub f = pre @ ''.<UDIM>.'' @ ext @ nl" by blast
    have "strip_nl ((pre @ ''.<UDIM>.'') @ ext @ nl) = (pre @ ''.<UDIM>.'') @ ext"
      by (rule strip_nl_append[OF c(2,1,3)])
    then have "\<not> has_udim_suffix (strip_nl (re_sub f))"
      using no_suffix_placeholder[OF c(1), of pre] r by simp
    then show ?thesis by (rule re_sub_miss)
  qed
qed

lemma re_sub_no_slash: "CHR ''/'' \<notin> set f \<Longrightarrow> CHR ''/'' \<notin> set (re_sub f)"
  using re_sub_shape[of f] by auto

lemma basename_no_slash: "CHR ''/'' \<notin> set (basename p)"
  by (auto simp: basename_def dest: set_takeWhileD)

lemma basename_id: "CHR ''/'' \<notin> set f \<Longrightarrow> basename f = f"
proof -
  assume "CHR ''/'' \<notin> set f"
  then have "takeWhile (\<lambda>c. c \<noteq> CHR ''/'') (rev f) = rev f"
    unfolding takeWhile_eq_all_conv by auto
  then have "rev (takeWhile (\<lambda>c. c \<noteq> CHR ''/'') (rev f)) = rev (rev f)" by (rule arg_cong)
  then show ?thesis unfolding basename_def rev_rev_ident .
qed


lemma texture_key_idem: "texture_key (texture_key p) = texture_key p"
proof -
  have "CHR ''/'' \<notin> set (re_sub (basename p))"
    by (rule re_sub_no_slash) (rule basename_no_slash)
  then have "basename (re_sub (basename p)) = re_sub (basename p)" by (rule basename_id)
  then show ?thesis by (simp add: texture_key_def re_sub_idem)
qed

subsection \<open>The dictionary of groups\<close>

lemma first_seen_snoc:
  "first_seen (xs @ [x]) = (if x \<in> set xs then first_seen xs else first_seen xs @ [x])"
  by (simp add: first_seen_def)

lemma distinct_first_seen: "distinct (first_seen xs)"
  by (simp add: first_seen_def)

lemma set_first_seen: "set (first_seen xs) = set xs"
  by (simp add: first_seen_def)

lemma setdefault_append_map:
  "distinct ks \<Longrightarrow>
   setdefault_append k v (map (\<lambda>k'. (k', f k')) ks) =
     (if k \<in> set ks then map (\<lambda>k'. (k', if k' = k then f k' @ [v] else f k')) ks
      else map (\<lambda>k'. (k', f k')) ks @ [(k, [v])])"
  by (induction ks) auto

lemma fold_groups:
  "fold (\<lambda>p g. setdefault_append (key p) p g) ps [] =
     map (\<lambda>k. (k, filter (\<lambda>p. key p = k) ps)) (first_seen (map key ps))"
proof (induction ps rule: rev_induct)
  case Nil
  show ?case by (simp add: first_seen_def)
next
  case (snoc p ps)
  let ?ks = "first_seen (map key ps)"
  let ?F = "\<lambda>k. filter (\<lambda>q. key q = k) ps"
  have d: "distinct ?ks" by (rule distinct_first_seen)
  have s: "set ?ks = set (map key ps)" by (rule set_first_seen)
  have step: "fold (\<lambda>p g. setdefault_append (key p) p g) (ps @ [p]) []
          = setdefault_append (key p) p (map (\<lambda>k. (k, ?F k)) ?ks)"
    using snoc.IH by simp
  have fl: "filter (\<lambda>q. key q = k) (ps @ [p]) = ?F k @ (if k = key p then [p] else [])" for k
    by auto
  show ?case
  proof (cases "key p \<in> set (map key ps)")
    case True
    then have fs: "first_seen (map key (ps @ [p])) = ?ks" by (simp add: first_seen_snoc)
    have "setdefault_append (key p) p (map (\<lambda>k. (k, ?F k)) ?ks)
        = map (\<lambda>k. (k, if k = key p then ?F k @ [p] else ?F k)) ?ks"
      using True s by (simp add: setdefault_append_map[OF d])
    also have "\<dots> = map (\<lambda>k. (k, filter (\<lambda>q. key q = k) (ps @ [p]))) ?ks"
      unfolding fl by (rule map_cong) auto
    finally show ?thesis unfolding step fs .
  next
    case False
    then have fs: "first_seen (map key (ps @ [p])) = ?ks @ [key p]" by (simp add: first_seen_snoc)
    from False have e: "?F (key p) = []"
      unfolding filter_empty_conv set_map by (metis imageI)
    from False s have n: "key p \<notin> set ?ks" by simp
    have a: "setdefault_append (key p) p (map (\<lambda>k. (k, ?F k)) ?ks)
        = map (\<lambda>k. (k, ?F k)) ?ks @ [(key p, [p])]"
      using n by (simp add: setdefault_append_map[OF d])
    have b: "map (\<lambda>k. (k, ?F k)) ?ks = map (\<lambda>k. (k, filter (\<lambda>q. key q = k) (ps @ [p]))) ?ks"
      unfolding fl using n by (intro map_cong) auto
    have c: "[(key p, [p])] = map (\<lambda>k. (k, filter (\<lambda>q. key q = k) (ps @ [p]))) [key p]"
      unfolding fl using e by simp
    have "map (\<lambda>k. (k, filter (\<lambda>q. key q = k) (ps @ [p]))) (?ks @ [key p])
        = map (\<lambda>k. (k, ?F k)) ?ks @ [(key p, [p])]"
      unfolding map_append b[symmetric] c[symmetric] ..
    then show ?thesis unfolding step fs a ..
  qed
qed

lemma group_texture_sequences_eq:
  "group_texture_sequences paths =
     map (\<lambda>k. filter (\<lambda>p. texture_key p = k) paths) (first_seen (map texture_key paths))"
  by (simp add: group_texture_sequences_def fold_groups comp_def)

lemma mset_setdefault_append:
  "mset (concat (map snd (setdefault_append k v d))) = mset (concat (map snd d)) + {#v#}"
  by (induction d) auto

lemma mset_fold_groups:
  "mset (concat (map snd (fold (\<lambda>p g. setdefault_append (key p) p g) ps d)))
     = mset (concat (map snd d)) + mset ps"
  by (induction ps arbitrary: d) (simp_all add: mset_setdefault_append)


lemma first_seen_Cons: "first_seen (x # xs) = x # filter (\<lambda>y. y \<noteq> x) (first_seen xs)"
proof -
  have "remdups (ys @ [x]) = remdups (filter (\<lambda>y. y \<noteq> x) ys) @ [x]" for ys
    by (induction ys) auto
  then have "remdups (rev xs @ [x]) = remdups (filter (\<lambda>y. y \<noteq> x) (rev xs)) @ [x]" .
  then show ?thesis by (simp add: first_seen_def remdups_filter rev_filter)
qed

lemma first_seen_block:
  "ys \<noteq> [] \<Longrightarrow> \<forall>y\<in>set ys. y = k \<Longrightarrow> first_seen (ys @ xs) = k # filter (\<lambda>y. y \<noteq> k) (first_seen xs)"
proof (induction ys)
  case Nil
  then show ?case by simp
next
  case (Cons y ys)
  then have y: "y = k" by simp
  show ?case
  proof (cases ys)
    case Nil
    then show ?thesis using y by (simp add: first_seen_Cons)
  next
    case (Cons z zs)
    then have "first_seen (ys @ xs) = k # filter (\<lambda>y. y \<noteq> k) (first_seen xs)"
      using Cons.IH Cons.prems by simp
    then show ?thesis using y by (simp add: first_seen_Cons)
  qed
qed

lemma first_seen_blocks:
  "distinct ks \<Longrightarrow> \<forall>k\<in>set ks. B k \<noteq> [] \<and> (\<forall>q\<in>set (B k). key q = k) \<Longrightarrow>
   first_seen (map key (concat (map B ks))) = ks"
proof (induction ks)
  case Nil
  show ?case by (simp add: first_seen_def)
next
  case (Cons k ks)
  have ih: "first_seen (map key (concat (map B ks))) = ks" using Cons by simp
  have "first_seen (map key (B k) @ map key (concat (map B ks)))
          = k # filter (\<lambda>y. y \<noteq> k) (first_seen (map key (concat (map B ks))))"
    by (rule first_seen_block) (use Cons.prems in auto)
  moreover have "filter (\<lambda>y. y \<noteq> k) ks = ks" using Cons.prems(1) by (auto simp: filter_id_conv)
  ultimately show ?case using ih by simp
qed

lemma concat_select:
  "distinct ks \<Longrightarrow> k \<in> set ks \<Longrightarrow> concat (map (\<lambda>k'. if k' = k then X else []) ks) = X"
  by (induction ks) (auto simp: concat_eq_Nil_conv)

lemma regroup:
  "group_texture_sequences (concat (group_texture_sequences ps)) = group_texture_sequences ps"
proof -
  let ?ks = "first_seen (map texture_key ps)"
  let ?B = "\<lambda>k. filter (\<lambda>p. texture_key p = k) ps"
  let ?c = "concat (map ?B ?ks)"
  have d: "distinct ?ks" by (rule distinct_first_seen)
  have s: "set ?ks = set (map texture_key ps)" by (rule set_first_seen)
  have ne: "\<forall>k\<in>set ?ks. ?B k \<noteq> [] \<and> (\<forall>q\<in>set (?B k). texture_key q = k)"
    unfolding s by (auto simp: filter_empty_conv)
  have a: "first_seen (map texture_key ?c) = ?ks" using d ne by (rule first_seen_blocks)
  have b: "filter (\<lambda>p. texture_key p = k) ?c = ?B k" if "k \<in> set ?ks" for k
  proof -
    have "filter (\<lambda>p. texture_key p = k) ?c
        = concat (map (\<lambda>k'. filter (\<lambda>p. texture_key p = k) (?B k')) ?ks)"
      by (simp add: filter_concat comp_def)
    also have "\<dots> = concat (map (\<lambda>k'. if k' = k then ?B k else []) ?ks)"
      by (rule arg_cong[where f = concat], rule map_cong) (auto simp: filter_empty_conv)
    also have "\<dots> = ?B k" using d that by (rule concat_select)
    finally show ?thesis .
  qed
  have "group_texture_sequences ?c = map (\<lambda>k. filter (\<lambda>p. texture_key p = k) ?c) ?ks"
    unfolding group_texture_sequences_eq[of ?c] a ..
  also have "\<dots> = map ?B ?ks" by (rule map_cong) (simp_all add: b)
  finally show ?thesis unfolding group_texture_sequences_eq[of ps] .
qed

subsection \<open>The claims on the grouper\<close>

lemma not_digit_slash [simp]: "\<not> is_digit (CHR ''/'')"
  by (simp add: is_digit_def)

lemma not_word_slash [simp]: "\<not> is_word (CHR ''/'')"
  by (simp add: is_word_def)



text \<open>
  Claim C8 as stated fails: two paths in different directories with the same final
  component, which has no digits before the extension, share one group.
\<close>

theorem singleton_group_counterexample:
  "''a/T.exr'' \<in> set [''a/T.exr'', ''b/T.exr''] \<and>
   \<not> has_udim_suffix (basename ''a/T.exr'') \<and>
   texture_key ''a/T.exr'' = basename ''a/T.exr'' \<and>
   group_texture_sequences [''a/T.exr'', ''b/T.exr''] = [[''a/T.exr'', ''b/T.exr'']] \<and>
   [''a/T.exr''] \<notin> set (group_texture_sequences [''a/T.exr'', ''b/T.exr''])"
  by code_simp

text \<open>
  Claim C8, amended. For a path of the input whose final component (a line feed that ends
  it set aside, as the pattern's end anchor does) has no trailing dot-digits segment
  before the extension, the key is the final component unchanged, and the one group that
  holds the path consists of the input paths with that key, in input order; it is the
  singleton of the path when the path is the only one with that key.
\<close>

theorem no_udim_suffix_group:
  assumes "path \<in> set paths" and "\<not> has_udim_suffix (strip_nl (basename path))"
  shows "texture_key path = basename path \<and>
         filter (\<lambda>p. texture_key p = basename path) paths \<in> set (group_texture_sequences paths) \<and>
         (\<forall>g\<in>set (group_texture_sequences paths).
            path \<in> set g \<longleftrightarrow> g = filter (\<lambda>p. texture_key p = basename path) paths) \<and>
         (filter (\<lambda>p. texture_key p = basename path) paths = [path]
            \<longrightarrow> [path] \<in> set (group_texture_sequences paths))"
proof -
  have k: "texture_key path = basename path"
    using assms(2) by (simp add: texture_key_def re_sub_miss)
  let ?g = "filter (\<lambda>p. texture_key p = basename path) paths"
  have gs: "set (group_texture_sequences paths)
              = (\<lambda>k. filter (\<lambda>p. texture_key p = k) paths) ` texture_key ` set paths"
    by (simp add: group_texture_sequences_eq set_first_seen image_comp)
  have m: "?g \<in> set (group_texture_sequences paths)"
    unfolding gs using assms(1) k by (metis imageI)
  have u: "path \<in> set g \<longleftrightarrow> g = ?g" if "g \<in> set (group_texture_sequences paths)" for g
  proof -
    from that obtain k' where g: "g = filter (\<lambda>p. texture_key p = k') paths" unfolding gs by blast
    show ?thesis
    proof
      assume "path \<in> set g"
      then have "k' = basename path" using g k by simp
      then show "g = ?g" using g by simp
    next
      assume "g = ?g"
      then show "path \<in> set g" using assms(1) k by simp
    qed
  qed
  from k m u show ?thesis by metis
qed

text \<open>A name without tile number next to a tile, alone and with a namesake.\<close>

theorem no_udim_suffix_group_witness:
  "texture_key ''a/T.exr'' = ''T.exr'' \<and>
   [''a/T.exr'', ''b/T.exr''] \<in> set (group_texture_sequences [''a/T.exr'', ''x.1.exr'', ''b/T.exr'']) \<and>
   [''T.exr''] \<in> set (group_texture_sequences [''x.1.exr'', ''T.exr''])"
proof -
  have a: "''a/T.exr'' \<in> set [''a/T.exr'', ''x.1.exr'', ''b/T.exr'']" by simp
  have b: "\<not> has_udim_suffix (strip_nl (basename ''a/T.exr''))" by code_simp
  have c: "''T.exr'' \<in> set [''x.1.exr'', ''T.exr'']" by simp
  have d: "\<not> has_udim_suffix (strip_nl (basename ''T.exr''))" by code_simp
  have e: "basename ''a/T.exr'' = ''T.exr''" by code_simp
  have f: "basename ''T.exr'' = ''T.exr''" by code_simp
  have g: "filter (\<lambda>p. texture_key p = ''T.exr'') [''a/T.exr'', ''x.1.exr'', ''b/T.exr''] = [''a/T.exr'', ''b/T.exr'']"
    by code_simp
  have h: "filter (\<lambda>p. texture_key p = ''T.exr'') [''x.1.exr'', ''T.exr''] = [''T.exr'']"
    by code_simp
  show ?thesis
    using no_udim_suffix_group[OF a b] no_udim_suffix_group[OF c d] unfolding e f g h by simp
qed

text \<open>
  Claim C9. The substitution leaves a derived key unchanged, and so does the whole key
  derivation (final component, then substitution). The grouper reads nothing but its
  argument and starts from an empty dictionary, so its output is a function of the path
  list; moreover grouping the paths of its own output, taken group after group, gives
  the same groups again.
\<close>

theorem key_derivation_idempotent:
  "re_sub (re_sub f) = re_sub f \<and>
   texture_key (texture_key path) = texture_key path \<and>
   group_texture_sequences (concat (group_texture_sequences paths)) = group_texture_sequences paths"
  using re_sub_idem texture_key_idem regroup by blast

text \<open>
  Claim C10. The groups, concatenated, are a permutation of the input (as multisets of
  full paths), and every group is a subsequence of the input.
\<close>

theorem groups_partition_input:
  "mset (concat (group_texture_sequences paths)) = mset paths \<and>
   (\<forall>g\<in>set (group_texture_sequences paths). subseq g paths)"
proof
  show "mset (concat (group_texture_sequences paths)) = mset paths"
    unfolding group_texture_sequences_def by (simp add: mset_fold_groups)
  show "\<forall>g\<in>set (group_texture_sequences paths). subseq g paths"
    by (auto simp: group_texture_sequences_eq)
qed

text \<open>Two tiles given out of order around another file.\<close>

theorem groups_partition_input_witness:
  "mset (concat (group_texture_sequences [''b.1002.exr'', ''a.exr'', ''b.1001.exr'']))
     = mset [''b.1002.exr'', ''a.exr'', ''b.1001.exr''] \<and>
   subseq [''b.1002.exr'', ''b.1001.exr''] [''b.1002.exr'', ''a.exr'', ''b.1001.exr'']"
proof -
  have "[''b.1002.exr'', ''b.1001.exr''] \<in> set (group_texture_sequences [''b.1002.exr'', ''a.exr'', ''b.1001.exr''])"
    by code_simp
  then show ?thesis
    using groups_partition_input[of "[''b.1002.exr'', ''a.exr'', ''b.1001.exr'']"] by blast
qed

section \<open>Properties of the menu generator\<close>

lemma split_not_Nil: "split sep s \<noteq> []"
  by (induction s) (auto split: list.splits)

subsection \<open>The list of commands\<close>

lemma build_sorted: "sorted (map name (build_menu_items cmds))"
  by (simp add: build_menu_items_def)

text \<open>
  Claim C4. The list of commands is sorted by name, and it holds each entry of
  \<^verbatim>\<open>engine.commands\<close> exactly once, as a command with that name, callback and properties and
  not yet a favourite: as multisets the list and the entries agree, the names are the
  sorted names of the entries, and nothing is added or dropped. The entries are only read:
  the list is a value computed from them.
\<close>

theorem build_menu_items_sorted_bijection:
  "sorted (map name (build_menu_items cmds)) \<and>
   mset (build_menu_items cmds) =
     image_mset (\<lambda>(cmd_name, cmd_details).
        \<lparr>name = cmd_name, properties = snd cmd_details, callback = fst cmd_details,
         favourite = False\<rparr>) (mset cmds) \<and>
   map name (build_menu_items cmds) = sort (map fst cmds) \<and>
   length (build_menu_items cmds) = length cmds"
proof -
  have m: "map (\<lambda>(cmd_name, cmd_details). AppCommand cmd_name cmd_details) cmds
         = map (\<lambda>(cmd_name, cmd_details).
        \<lparr>name = cmd_name, properties = snd cmd_details, callback = fst cmd_details,
         favourite = False\<rparr>) cmds"
    by (simp add: AppCommand_def)
  have n: "map name (map (\<lambda>(cmd_name, cmd_details). AppCommand cmd_name cmd_details) cmds) = map fst cmds"
    by (induction cmds) (auto simp: AppCommand_def)
  have "mset (map name (build_menu_items cmds))
          = mset (map name (map (\<lambda>(cmd_name, cmd_details). AppCommand cmd_name cmd_details) cmds))"
    unfolding build_menu_items_def mset_map mset_sort ..
  then have "mset (map name (build_menu_items cmds)) = mset (map fst cmds)"
    unfolding n .
  then have "sort (map fst cmds) = map name (build_menu_items cmds)"
    by (rule properties_for_sort) (rule build_sorted)
  then show ?thesis
    by (simp add: build_menu_items_def m flip: mset_map)
qed


subsection \<open>Command names and sub-menus\<close>

text \<open>
  Claim C7 as stated fails: for a command with the empty name nothing is raised; the menu
  gets an item with the empty label, also in the whole menu of \<^verbatim>\<open>setup_menu_items\<close>.
\<close>

theorem empty_name_counterexample:
  "add_command_to_menu
     \<lparr>name = [], properties = \<lparr>app = None, cmd_type = None, tooltip = None, enable_callback = None\<rparr>,
      callback = (1::nat), favourite = False\<rparr> (QMenu ''ShotGrid'' [])
     = Inr (QMenu ''ShotGrid'' [Action [] (Callback 1) True]) \<and>
   setup_menu_items
     \<lparr>commands = [([], (1::nat, \<lparr>app = None, cmd_type = None, tooltip = None, enable_callback = None\<rparr>))],
      menu_favourites = [], context_str = ''Asset X'', filesystem_locations = []\<rparr>
     \<lparr>shotgrid_menu = QMenu ''ShotGrid'' [], context_menu = 0\<rparr>
     = Inr \<lparr>shotgrid_menu = QMenu ''ShotGrid''
              [MenuAction ''Asset X'' [Action ''Jump to ShotGrid'' JumpToSg True, Separator],
               Separator, Separator, Action [] (Callback 1) True],
            context_menu = 0\<rparr>"
  by code_simp

text \<open>
  Claim C7, amended. A command with the empty name whose properties have no tooltip is
  added without error, as an item with the empty label at the end of the parent menu;
  and no name resolves to zero path segments, since \<^verbatim>\<open>split\<close> always returns at least one.
\<close>

theorem empty_name_adds_empty_item:
  assumes "name cmd = []" and "tooltip (properties cmd) = None"
  shows "split (CHR ''/'') (name cmd) = [[]] \<and>
         add_command_to_menu cmd m =
           Inr (QMenu (title m) (actions m @
                  [Action [] (Callback (callback cmd))
                     (case enable_callback (properties cmd) of Some enabled \<Rightarrow> enabled | None \<Rightarrow> True)])) \<and>
         split (CHR ''/'') any_name \<noteq> []"
  using assms
  by (simp add: add_command_to_menu_def add_menu_item_def split_not_Nil split: option.splits)

text \<open>An empty name with an enable callback that returns false.\<close>

theorem empty_name_adds_empty_item_witness:
  "add_command_to_menu
     \<lparr>name = [], properties = \<lparr>app = None, cmd_type = None, tooltip = None, enable_callback = Some False\<rparr>,
      callback = (1::nat), favourite = False\<rparr> (QMenu ''ShotGrid'' [Separator])
     = Inr (QMenu ''ShotGrid'' [Separator, Action [] (Callback 1) False])"
  using empty_name_adds_empty_item
    [of "\<lparr>name = [], properties = \<lparr>app = None, cmd_type = None, tooltip = None, enable_callback = Some False\<rparr>,
      callback = (1::nat), favourite = False\<rparr>" "QMenu ''ShotGrid'' [Separator]"]
  by simp

text \<open>
  Claim C5 says that command names with the same first segments, added under the same
  parent, share one sub-menu per segment. For the commands \<^verbatim>\<open>Publish\<close>, \<^verbatim>\<open>Publish/A\<close> and
  \<^verbatim>\<open>Publish/B\<close> of one app the code does not do so: the item \<^verbatim>\<open>Publish\<close> comes first in the
  app's menu, \<^verbatim>\<open>_find_sub_menu_item\<close> stops at it and returns \<^verbatim>\<open>None\<close>, and each of the two
  other commands gets a sub-menu \<^verbatim>\<open>Publish\<close> of its own.
\<close>

theorem sub_menu_not_reused_after_item:
  "setup_menu_items
     \<lparr>commands =
        [(''Publish'', (1::nat, \<lparr>app = Some \<lparr>app_id = 7, display_name = ''Publisher'', engine_apps = [(''tk-multi-publish2'', 7)]\<rparr>,
                                 cmd_type = None, tooltip = None, enable_callback = None\<rparr>)),
         (''Publish/A'', (2, \<lparr>app = Some \<lparr>app_id = 7, display_name = ''Publisher'', engine_apps = [(''tk-multi-publish2'', 7)]\<rparr>,
                                 cmd_type = None, tooltip = None, enable_callback = None\<rparr>)),
         (''Publish/B'', (3, \<lparr>app = Some \<lparr>app_id = 7, display_name = ''Publisher'', engine_apps = [(''tk-multi-publish2'', 7)]\<rparr>,
                                 cmd_type = None, tooltip = None, enable_callback = None\<rparr>))],
      menu_favourites = [], context_str = ''Asset X'', filesystem_locations = []\<rparr>
     \<lparr>shotgrid_menu = QMenu ''ShotGrid'' [], context_menu = 0\<rparr>
   = Inr \<lparr>shotgrid_menu = QMenu ''ShotGrid''
            [MenuAction ''Asset X'' [Action ''Jump to ShotGrid'' JumpToSg True, Separator],
             Separator, Separator,
             MenuAction ''Publisher''
               [Action ''Publish'' (Callback 1) True,
                MenuAction ''Publish'' [Action ''A'' (Callback 2) True],
                MenuAction ''Publish'' [Action ''B'' (Callback 3) True]]],
          context_menu = 0\<rparr>"
  by code_simp

subsection \<open>Favourites\<close>

lemma add_favourite_no_match:
  "\<forall>c\<in>set menu_items. \<not> is_favourite fav c \<Longrightarrow> add_favourite fav menu_items m = Inr (menu_items, m)"
  by (induction menu_items) simp_all

text \<open>
  The names of the commands are the keys of a dictionary, hence distinct. Then
  \<^verbatim>\<open>_add_favourite\<close> reaches at most one command, the first that matches the descriptor:
  it adds it to the menu and, unless that raises, marks it as favourite; when no command
  matches, it returns without error and leaves the commands and the menu as they were.
\<close>

lemma add_favourite_first_match:
  assumes "distinct (map name menu_items)"
  shows "add_favourite fav menu_items m =
           (case find (is_favourite fav) menu_items of
              None \<Rightarrow> Inr (menu_items, m)
            | Some cmd \<Rightarrow>
                (case add_command_to_menu cmd m of
                   Inl e \<Rightarrow> Inl e
                 | Inr m' \<Rightarrow>
                     Inr (map (\<lambda>c. if name c = name cmd then c\<lparr>favourite := True\<rparr> else c) menu_items,
                          m')))"
  using assms
proof (induction menu_items)
  case Nil
  show ?case by simp
next
  case (Cons c cs)
  show ?case
  proof (cases "is_favourite fav c")
    case True
    have "name c \<notin> name ` set cs" using Cons.prems by simp
    then have nm: "\<forall>x\<in>set cs. name x \<noteq> name c" by (metis imageI)
    then have "\<forall>x\<in>set cs. \<not> is_favourite fav x"
      using True by (auto simp: is_favourite_def)
    then have r: "add_favourite fav cs m' = Inr (cs, m')" for m'
      by (rule add_favourite_no_match)
    have "map (\<lambda>x. if name x = name c then x\<lparr>favourite := True\<rparr> else x) cs = cs"
      using nm by (induction cs) auto
    then show ?thesis using True r by (simp split: sum.splits)
  next
    case False
    have nc: "name c \<notin> name ` set cs" using Cons.prems by simp
    have nm: "name c \<noteq> name cmd" if "find (is_favourite fav) cs = Some cmd" for cmd
    proof -
      from that have "cmd \<in> set cs" by (auto simp: find_Some_iff)
      with nc show ?thesis by (metis imageI)
    qed
    show ?thesis using False Cons.IH Cons.prems nm
      by (auto split: sum.splits option.splits)
  qed
qed

text \<open>A descriptor that matches the second of two commands, and one that matches none.\<close>

lemma add_favourite_first_match_example:
  "add_favourite \<lparr>app_instance = ''tk-multi-publish2'', fav_name = ''Publish...''\<rparr>
     [\<lparr>name = ''About'', properties = \<lparr>app = None, cmd_type = None, tooltip = None, enable_callback = None\<rparr>,
       callback = (1::nat), favourite = False\<rparr>,
      \<lparr>name = ''Publish...'',
       properties = \<lparr>app = Some \<lparr>app_id = 7, display_name = ''Publish'', engine_apps = [(''tk-multi-publish2'', 7)]\<rparr>,
                     cmd_type = None, tooltip = None, enable_callback = None\<rparr>,
       callback = 2, favourite = False\<rparr>]
     (QMenu ''ShotGrid'' [Separator])
   = Inr ([\<lparr>name = ''About'', properties = \<lparr>app = None, cmd_type = None, tooltip = None, enable_callback = None\<rparr>,
            callback = 1, favourite = False\<rparr>,
           \<lparr>name = ''Publish...'',
            properties = \<lparr>app = Some \<lparr>app_id = 7, display_name = ''Publish'', engine_apps = [(''tk-multi-publish2'', 7)]\<rparr>,
                     cmd_type = None, tooltip = None, enable_callback = None\<rparr>,
            callback = 2, favourite = True\<rparr>],
          QMenu ''ShotGrid'' [Separator, Action ''Publish...'' (Callback 2) True]) \<and>
   add_favourite \<lparr>app_instance = ''tk-multi-publish2'', fav_name = ''Missing''\<rparr>
     [\<lparr>name = ''About'', properties = \<lparr>app = None, cmd_type = None, tooltip = None, enable_callback = None\<rparr>,
       callback = (1::nat), favourite = False\<rparr>]
     (QMenu ''ShotGrid'' [Separator])
   = Inr ([\<lparr>name = ''About'', properties = \<lparr>app = None, cmd_type = None, tooltip = None, enable_callback = None\<rparr>,
            callback = 1, favourite = False\<rparr>], QMenu ''ShotGrid'' [Separator])"
proof -
  let ?about = "\<lparr>name = ''About'', properties = \<lparr>app = None, cmd_type = None, tooltip = None, enable_callback = None\<rparr>,
       callback = (1::nat), favourite = False\<rparr>"
  let ?publish = "\<lparr>name = ''Publish...'',
       properties = \<lparr>app = Some \<lparr>app_id = 7, display_name = ''Publish'', engine_apps = [(''tk-multi-publish2'', 7)]\<rparr>,
                     cmd_type = None, tooltip = None, enable_callback = None\<rparr>,
       callback = (2::nat), favourite = False\<rparr>"
  have d: "distinct (map name [?about, ?publish])" by simp
  have d': "distinct (map name [?about])" by simp
  show ?thesis
    unfolding add_favourite_first_match[OF d] add_favourite_first_match[OF d']
    by (simp add: is_favourite_def get_app_instance_name_def add_command_to_menu_def
        add_menu_item_def)
qed

text \<open>
  Claim C6 says that the favourites pass attaches the first command that matches the
  descriptor and marks it as favourite, or attaches none, and does not raise. For a
  matching command whose properties have a tooltip the code does neither: the item is
  added, then \<^verbatim>\<open>_add_menu_item\<close> calls \<^verbatim>\<open>setTooltip\<close>, which a \<^verbatim>\<open>QAction\<close> does not have (the
  method is \<^verbatim>\<open>setToolTip\<close>); \<^verbatim>\<open>AttributeError\<close> is raised before the command is marked, and
  \<^verbatim>\<open>setup_menu_items\<close> fails with it.
\<close>

theorem add_favourite_raises_on_tooltip:
  "is_favourite \<lparr>app_instance = ''tk-multi-publish2'', fav_name = ''Publish...''\<rparr>
     \<lparr>name = ''Publish...'',
      properties = \<lparr>app = Some \<lparr>app_id = 7, display_name = ''Publish'', engine_apps = [(''tk-multi-publish2'', 7)]\<rparr>,
                    cmd_type = None, tooltip = Some ''Publish the scene'', enable_callback = None\<rparr>,
      callback = (1::nat), favourite = False\<rparr> \<and>
   add_favourite \<lparr>app_instance = ''tk-multi-publish2'', fav_name = ''Publish...''\<rparr>
     [\<lparr>name = ''Publish...'',
       properties = \<lparr>app = Some \<lparr>app_id = 7, display_name = ''Publish'', engine_apps = [(''tk-multi-publish2'', 7)]\<rparr>,
                     cmd_type = None, tooltip = Some ''Publish the scene'', enable_callback = None\<rparr>,
       callback = (1::nat), favourite = False\<rparr>]
     (QMenu ''ShotGrid'' [Separator])
   = Inl AttributeError \<and>
   setup_menu_items
     \<lparr>commands =
        [(''Publish...'', (1::nat, \<lparr>app = Some \<lparr>app_id = 7, display_name = ''Publish'', engine_apps = [(''tk-multi-publish2'', 7)]\<rparr>,
                                 cmd_type = None, tooltip = Some ''Publish the scene'', enable_callback = None\<rparr>))],
      menu_favourites = [\<lparr>app_instance = ''tk-multi-publish2'', fav_name = ''Publish...''\<rparr>],
      context_str = ''Asset X'', filesystem_locations = []\<rparr>
     \<lparr>shotgrid_menu = QMenu ''ShotGrid'' [], context_menu = 0\<rparr>
   = Inl AttributeError"
  by code_simp

subsection \<open>Every step adds items and removes none\<close>

lemma handlers_menuAction [simp]: "handlers (menuAction m) = menu_handlers m"
  by (cases m) (simp add: menu_handlers_def)

lemma sum_list_update:
  "i < length xs \<Longrightarrow>
   sum_list (map f (xs[i := y])) + f (xs ! i) = sum_list (map f xs) + (f y :: 'a multiset)"
proof (induction xs arbitrary: i)
  case Nil
  then show ?case by simp
next
  case (Cons x xs)
  show ?case
  proof (cases i)
    case 0
    then show ?thesis by (simp add: ac_simps)
  next
    case (Suc j)
    then have "sum_list (map f (xs[j := y])) + f (xs ! j) = sum_list (map f xs) + f y"
      using Cons by simp
    then show ?thesis using Suc by (simp add: ac_simps)
  qed
qed

lemma find_from_sound:
  "find_sub_menu_item_from k as label = Some (i, sub) \<Longrightarrow>
   k \<le> i \<and> i - k < length as \<and> as ! (i - k) = menuAction sub \<and> title sub = label"
proof (induction as arbitrary: k)
  case Nil
  then show ?case by simp
next
  case (Cons a as)
  show ?case
  proof (cases "action_text a = label")
    case True
    with Cons.prems show ?thesis by (cases a) (auto split: option.splits)
  next
    case False
    with Cons.prems have "find_sub_menu_item_from (Suc k) as label = Some (i, sub)" by simp
    from Cons.IH[OF this] show ?thesis by (auto simp: Suc_diff_le)
  qed
qed

lemma find_sub_menu_item_sound:
  "find_sub_menu_item m label = Some (i, sub) \<Longrightarrow>
   i < length (actions m) \<and> actions m ! i = menuAction sub \<and> title sub = label"
  using find_from_sound[of 0 "actions m" label i sub] by (simp add: find_sub_menu_item_def)

lemma menu_handlers_set_menu:
  "i < length (actions m) \<Longrightarrow>
   menu_handlers (set_menu m i sub') + handlers (actions m ! i) = menu_handlers m + menu_handlers sub'"
  using sum_list_update[of i "actions m" handlers "menuAction sub'"]
  by (simp add: menu_handlers_def set_menu_def)

lemma add_menu_item_handlers:
  "add_menu_item t m h props = Inr m' \<Longrightarrow> menu_handlers m' = menu_handlers m + {#h#}"
  by (auto simp: add_menu_item_def menu_handlers_def split: option.splits)

lemma add_command_parts_handlers:
  "add_command_parts labels l cmd m = Inr m' \<Longrightarrow>
   menu_handlers m' = menu_handlers m + {#Callback (callback cmd)#}"
proof (induction labels arbitrary: m m')
  case Nil
  then show ?case by (simp add: add_menu_item_handlers)
next
  case (Cons label labels)
  show ?case
  proof (cases "find_sub_menu_item m label")
    case None
    from Cons.prems None obtain sub' where
      s: "add_command_parts labels l cmd (QMenu label []) = Inr sub'" and
      m': "m' = set_menu (QMenu (title m) (actions m @ [MenuAction label []])) (length (actions m)) sub'"
      by (auto simp: add_sub_menu_def split: sum.splits)
    have "menu_handlers sub' = {#Callback (callback cmd)#}"
      using Cons.IH[OF s] by (simp add: menu_handlers_def)
    then show ?thesis unfolding m' by (simp add: set_menu_def menu_handlers_def)
  next
    case (Some r)
    obtain i sub where r: "r = (i, sub)" by (cases r)
    from Cons.prems Some r obtain sub' where
      s: "add_command_parts labels l cmd sub = Inr sub'" and m': "m' = set_menu m i sub'"
      by (auto split: sum.splits)
    from find_sub_menu_item_sound[OF Some[unfolded r]]
    have i: "i < length (actions m)" and a: "actions m ! i = menuAction sub" by simp_all
    have "menu_handlers m' + menu_handlers sub = menu_handlers m + menu_handlers sub'"
      using menu_handlers_set_menu[OF i, of sub'] a m' by simp
    then show ?thesis using Cons.IH[OF s] by (simp add: ac_simps)
  qed
qed


lemma grows_refl [simp]: "grows a a"
  by (simp add: grows_def)

lemma grows_trans: "grows a b \<Longrightarrow> grows b c \<Longrightarrow> grows a c"
  by (auto simp: grows_def intro: subset_mset.order_trans)

lemma menu_grows_refl [simp]: "menu_grows m m"
  by (simp add: menu_grows_def)

lemma menu_grows_trans: "menu_grows a b \<Longrightarrow> menu_grows b c \<Longrightarrow> menu_grows a c"
  unfolding menu_grows_def
  by (metis (no_types, lifting) grows_trans le_trans less_le_trans)

lemma menu_grows_append: "menu_grows m (QMenu (title m) (actions m @ xs))"
  by (simp add: menu_grows_def nth_append)

lemma menu_grows_set_menu:
  assumes "i < length (actions m)" "actions m ! i = menuAction sub" "title sub' = title sub"
    "menu_handlers sub \<subseteq># menu_handlers sub'"
  shows "menu_grows m (set_menu m i sub')"
proof -
  have "grows (menuAction sub) (menuAction sub')"
    using assms(3,4) by (cases sub; cases sub') (simp add: grows_def menu_handlers_def)
  then show ?thesis using assms(1,2)
    by (auto simp: menu_grows_def set_menu_def nth_list_update)
qed

lemma add_menu_item_grows: "add_menu_item t m h props = Inr m' \<Longrightarrow> menu_grows m m'"
  by (auto simp: add_menu_item_def menu_grows_append split: option.splits)

lemma add_command_parts_grows:
  "add_command_parts labels l cmd m = Inr m' \<Longrightarrow> menu_grows m m'"
proof (induction labels arbitrary: m m')
  case Nil
  then show ?case by (simp add: add_menu_item_grows)
next
  case (Cons label labels)
  show ?case
  proof (cases "find_sub_menu_item m label")
    case None
    let ?m1 = "QMenu (title m) (actions m @ [MenuAction label []])"
    from Cons.prems None obtain sub' where
      s: "add_command_parts labels l cmd (QMenu label []) = Inr sub'" and
      m': "m' = set_menu ?m1 (length (actions m)) sub'"
      by (auto simp: add_sub_menu_def split: sum.splits)
    have t: "title sub' = label" using Cons.IH[OF s] by (simp add: menu_grows_def)
    have "menu_grows ?m1 m'" unfolding m'
      by (rule menu_grows_set_menu[where sub = "QMenu label []"])
         (simp_all add: t menu_handlers_def)
    with menu_grows_append[of m] show ?thesis by (rule menu_grows_trans)
  next
    case (Some r)
    obtain i sub where r: "r = (i, sub)" by (cases r)
    from Cons.prems Some r obtain sub' where
      s: "add_command_parts labels l cmd sub = Inr sub'" and m': "m' = set_menu m i sub'"
      by (auto split: sum.splits)
    from find_sub_menu_item_sound[OF Some[unfolded r]]
    have i: "i < length (actions m)" and a: "actions m ! i = menuAction sub" by simp_all
    have t: "title sub' = title sub" using Cons.IH[OF s] by (simp add: menu_grows_def)
    have "menu_handlers sub \<subseteq># menu_handlers sub'"
      using add_command_parts_handlers[OF s] by simp
    with i a t show ?thesis unfolding m' by (rule menu_grows_set_menu)
  qed
qed


text \<open>
  A name of N segments puts the item N levels deep: below the parent menu a chain of
  sub-menus titled with the first N - 1 segments ends in an item with the last segment
  as its text.
\<close>

lemma add_command_parts_path:
  "add_command_parts labels leaf cmd m = Inr m' \<Longrightarrow>
   \<exists>a\<in>set (actions m'). item_below labels leaf (Callback (callback cmd)) a"
proof (induction labels arbitrary: m m')
  case Nil
  then show ?case by (auto simp: add_menu_item_def split: option.splits)
next
  case (Cons label labels)
  obtain i sub m1 where
    f: "(case find_sub_menu_item m label of Some sub_menu \<Rightarrow> (sub_menu, m)
         | None \<Rightarrow> add_sub_menu label m) = ((i, sub), m1)"
    by (metis prod.exhaust)
  have s: "i < length (actions m1) \<and> title sub = label"
  proof (cases "find_sub_menu_item m label")
    case None
    with f show ?thesis by (auto simp: add_sub_menu_def)
  next
    case (Some r)
    with f have "find_sub_menu_item m label = Some (i, sub)" and "m1 = m" by auto
    with find_sub_menu_item_sound[of m label i sub] show ?thesis by simp
  qed
  from Cons.prems f obtain sub' where
    a: "add_command_parts labels leaf cmd sub = Inr sub'" and m': "m' = set_menu m1 i sub'"
    by (auto split: sum.splits)
  have t: "title sub' = label"
    using add_command_parts_grows[OF a] s by (simp add: menu_grows_def)
  from Cons.IH[OF a] have "item_below (label # labels) leaf (Callback (callback cmd)) (menuAction sub')"
    using t by (cases sub') auto
  moreover have "menuAction sub' \<in> set (actions m')"
    unfolding m' set_menu_def using s by (simp add: set_update_memI)
  ultimately show ?case by blast
qed

lemma add_command_to_menu_path:
  "add_command_to_menu cmd m = Inr m' \<Longrightarrow>
   \<exists>a\<in>set (actions m').
      item_below (butlast (split (CHR ''/'') (name cmd))) (last (split (CHR ''/'') (name cmd)))
        (Callback (callback cmd)) a"
  unfolding add_command_to_menu_def Let_def by (rule add_command_parts_path)

lemma is_favourite_update [simp]:
  "is_favourite fav (cmd\<lparr>favourite := b\<rparr>) = is_favourite fav cmd"
  by (simp add: is_favourite_def get_app_instance_name_def)

lemma command_handlers_simps [simp]:
  "command_handlers [] = {#}"
  "command_handlers (cmd # cmds) = {#Callback (callback cmd)#} + command_handlers cmds"
  "command_handlers (xs @ ys) = command_handlers xs + command_handlers ys"
  by (simp_all add: command_handlers_def)








lemma command_handlers_sort_key [simp]:
  "command_handlers (sort_key name cmds) = command_handlers cmds"
  unfolding command_handlers_def mset_map mset_sort ..





















subsection \<open>Favourites and the groups of the apps\<close>







end
